theory Spec2Isabelle
  imports Main "HOL-Library.Word"
begin

section \<open>Strings and arrays of the source language\<close>

text \<open>
  A JavaScript string is a sequence of 16-bit UTF-16 code units. An array read
  \<open>a[k]\<close> outside the array yields \<open>undefined\<close>, which is \<open>None\<close> here; the strict
  comparisons \<open>===\<close> and \<open>!==\<close> of two such reads are equality and inequality of the
  optional values (a character is never equal to \<open>undefined\<close>).
\<close>

type_synonym js_string = "16 word list"

definition js_nth :: "'a list \<Rightarrow> nat \<Rightarrow> 'a option" where
  "js_nth xs k = (if k < length xs then Some (xs ! k) else None)"

text \<open>
  The cursors and the table entries are natural numbers in the model. A run that would
  put \<open>undefined\<close> into the cursor \<open>j\<close> (the read \<open>table[j - 1]\<close> outside the table), or
  that would write a table entry past the end of the table, stops with a fault.
\<close>

datatype fault = Out_of_bounds

definition js_set :: "'a list \<Rightarrow> nat \<Rightarrow> 'a \<Rightarrow> fault + 'a list" where
  "js_set xs k v = (if k < length xs then Inr (xs[k := v]) else Inl Out_of_bounds)"

text \<open>
  \<open>js_str\<close> writes a string of Latin-1 characters as its code units, so that the
  patterns of the test suite can be given as literals.
\<close>

definition js_str :: "string \<Rightarrow> js_string" where
  "js_str cs = map (\<lambda>c. word_of_nat (of_char c)) cs"

section \<open>\<open>KMP.stringToChars\<close>\<close>

text \<open>
  \<open>for (let c of str) chars.push(c)\<close>: the string iterator yields one string per code
  point. A lead surrogate followed by a trail surrogate is one element of two code units;
  every other code unit, a lone surrogate included, is an element of its own.
\<close>

definition is_lead :: "16 word \<Rightarrow> bool" where
  "is_lead u = (0xD800 \<le> u \<and> u \<le> 0xDBFF)"

definition is_trail :: "16 word \<Rightarrow> bool" where
  "is_trail u = (0xDC00 \<le> u \<and> u \<le> 0xDFFF)"

fun stringToChars :: "js_string \<Rightarrow> js_string list" where
  "stringToChars [] = []"
| "stringToChars [u] = [[u]]"
| "stringToChars (u # v # rest) =
     (if is_lead u \<and> is_trail v then [u, v] # stringToChars rest
      else [u] # stringToChars (v # rest))"

section \<open>\<open>KMP.makePartialMatchTable\<close>\<close>

text \<open>
  The \<open>while (i < length)\<close> loop of the table builder, on the cursors \<open>i\<close>, \<open>j\<close> and the
  table built so far. The loop need not end from an arbitrary table, so it is a partial
  function: \<open>None\<close> is a run that never returns. The builder starts the loop at \<open>i = 1\<close>,
  \<open>j = 0\<close> with the table \<open>new Array(length)\<close> filled with \<open>0\<close>.
\<close>

partial_function (option) table_loop ::
  "'a list \<Rightarrow> nat \<Rightarrow> nat \<Rightarrow> nat list \<Rightarrow> (fault + nat list) option" where
  "table_loop keywordChars i j table =
     (if i < length keywordChars then
        if js_nth keywordChars i \<noteq> js_nth keywordChars j then
          if j = 0 then
            (case js_set table i 0 of
               Inl e \<Rightarrow> Some (Inl e)
             | Inr table' \<Rightarrow> table_loop keywordChars (i + 1) j table')
          else
            (case js_nth table (j - 1) of
               None \<Rightarrow> Some (Inl Out_of_bounds)
             | Some j' \<Rightarrow> table_loop keywordChars i j' table)
        else
          (case js_set table i (j + 1) of
             Inl e \<Rightarrow> Some (Inl e)
           | Inr table' \<Rightarrow> table_loop keywordChars (i + 1) (j + 1) table')
      else Some (Inr table))"

declare table_loop.simps [code]

definition makePartialMatchTable :: "'a list \<Rightarrow> (fault + nat list) option" where
  "makePartialMatchTable keywordChars =
     (let len = length keywordChars;
          table = replicate len 0
      in table_loop keywordChars 1 0 table)"

section \<open>\<open>KMP.find\<close>\<close>

text \<open>
  The \<open>while (i < testLength)\<close> loop of the scanner. It returns the cursors \<open>(i, j)\<close> with
  which the loop is left, by the \<open>break\<close> or by its condition. The function \<open>find\<close> of
  the source is \<open>find_KMP\<close> here, \<open>find\<close> being a function on lists already; its
  result is the value of \<open>(i === testLength) ? -1 : (i - keywordLength)\<close>.
\<close>

partial_function (option) find_loop ::
  "'a list \<Rightarrow> 'a list \<Rightarrow> nat list \<Rightarrow> nat \<Rightarrow> nat \<Rightarrow> (fault + nat \<times> nat) option" where
  "find_loop testChars keywordChars table i j =
     (if i < length testChars then
        if js_nth testChars i = js_nth keywordChars j then
          if j + 1 = length keywordChars then Some (Inr (i + 1, j + 1))
          else find_loop testChars keywordChars table (i + 1) (j + 1)
        else
          if j > 0 then
            (case js_nth table (j - 1) of
               None \<Rightarrow> Some (Inl Out_of_bounds)
             | Some j' \<Rightarrow> find_loop testChars keywordChars table i j')
          else find_loop testChars keywordChars table (i + 1) j
      else Some (Inr (i, j)))"

declare find_loop.simps [code]

definition find_KMP :: "js_string \<Rightarrow> js_string \<Rightarrow> (fault + int) option" where
  "find_KMP testStr keywordStr =
     (let testChars = stringToChars testStr;
          testLength = length testChars;
          keywordChars = stringToChars keywordStr;
          keywordLength = length keywordChars
      in case makePartialMatchTable keywordChars of
           None \<Rightarrow> None
         | Some (Inl e) \<Rightarrow> Some (Inl e)
         | Some (Inr table) \<Rightarrow>
             (case find_loop testChars keywordChars table 0 0 of
                None \<Rightarrow> None
              | Some (Inl e) \<Rightarrow> Some (Inl e)
              | Some (Inr (i, j)) \<Rightarrow>
                  Some (Inr (if i = testLength then - 1
                             else int i - int keywordLength))))"

section \<open>The same loops with every indexed read checked\<close>

text \<open>
  In these copies of the two loops each read \<open>a[k]\<close> is checked against the length of
  the array, the reads of the two comparisons included: a read outside the array ends the
  run with \<open>Out_of_bounds\<close> instead of yielding \<open>undefined\<close>.
\<close>

partial_function (option) table_loop_checked ::
  "'a list \<Rightarrow> nat \<Rightarrow> nat \<Rightarrow> nat list \<Rightarrow> (fault + nat list) option" where
  "table_loop_checked keywordChars i j table =
     (if i < length keywordChars then
        (case js_nth keywordChars i of
           None \<Rightarrow> Some (Inl Out_of_bounds)
         | Some a \<Rightarrow>
             (case js_nth keywordChars j of
                None \<Rightarrow> Some (Inl Out_of_bounds)
              | Some b \<Rightarrow>
                  if a \<noteq> b then
                    if j = 0 then
                      (case js_set table i 0 of
                         Inl e \<Rightarrow> Some (Inl e)
                       | Inr table' \<Rightarrow> table_loop_checked keywordChars (i + 1) j table')
                    else
                      (case js_nth table (j - 1) of
                         None \<Rightarrow> Some (Inl Out_of_bounds)
                       | Some j' \<Rightarrow> table_loop_checked keywordChars i j' table)
                  else
                    (case js_set table i (j + 1) of
                       Inl e \<Rightarrow> Some (Inl e)
                     | Inr table' \<Rightarrow>
                         table_loop_checked keywordChars (i + 1) (j + 1) table')))
      else Some (Inr table))"

declare table_loop_checked.simps [code]

definition makePartialMatchTable_checked :: "'a list \<Rightarrow> (fault + nat list) option" where
  "makePartialMatchTable_checked keywordChars =
     (let len = length keywordChars;
          table = replicate len 0
      in table_loop_checked keywordChars 1 0 table)"

partial_function (option) find_loop_checked ::
  "'a list \<Rightarrow> 'a list \<Rightarrow> nat list \<Rightarrow> nat \<Rightarrow> nat \<Rightarrow> (fault + nat \<times> nat) option" where
  "find_loop_checked testChars keywordChars table i j =
     (if i < length testChars then
        (case js_nth testChars i of
           None \<Rightarrow> Some (Inl Out_of_bounds)
         | Some a \<Rightarrow>
             (case js_nth keywordChars j of
                None \<Rightarrow> Some (Inl Out_of_bounds)
              | Some b \<Rightarrow>
                  if a = b then
                    if j + 1 = length keywordChars then Some (Inr (i + 1, j + 1))
                    else find_loop_checked testChars keywordChars table (i + 1) (j + 1)
                  else
                    if j > 0 then
                      (case js_nth table (j - 1) of
                         None \<Rightarrow> Some (Inl Out_of_bounds)
                       | Some j' \<Rightarrow> find_loop_checked testChars keywordChars table i j')
                    else find_loop_checked testChars keywordChars table (i + 1) j))
      else Some (Inr (i, j)))"

declare find_loop_checked.simps [code]

definition find_KMP_checked :: "js_string \<Rightarrow> js_string \<Rightarrow> (fault + int) option" where
  "find_KMP_checked testStr keywordStr =
     (let testChars = stringToChars testStr;
          testLength = length testChars;
          keywordChars = stringToChars keywordStr;
          keywordLength = length keywordChars
      in case makePartialMatchTable_checked keywordChars of
           None \<Rightarrow> None
         | Some (Inl e) \<Rightarrow> Some (Inl e)
         | Some (Inr table) \<Rightarrow>
             (case find_loop_checked testChars keywordChars table 0 0 of
                None \<Rightarrow> None
              | Some (Inl e) \<Rightarrow> Some (Inl e)
              | Some (Inr (i, j)) \<Rightarrow>
                  Some (Inr (if i = testLength then - 1
                             else int i - int keywordLength))))"

section \<open>Reference definitions\<close>

text \<open>
  \<open>border xs b\<close>: the prefix of length \<open>b\<close> of \<open>xs\<close> is also its suffix of length \<open>b\<close>.
  \<open>lps_brute xs\<close> tries the lengths \<open>length xs - 1\<close>, \<open>length xs - 2\<close>, ... in turn and
  returns the first that is a border: the length of the longest proper prefix of \<open>xs\<close>
  that is also a proper suffix of \<open>xs\<close>.
\<close>

definition border :: "'a list \<Rightarrow> nat \<Rightarrow> bool" where
  "border xs b = (b \<le> length xs \<and> take b xs = drop (length xs - b) xs)"

primrec longest_border_upto :: "'a list \<Rightarrow> nat \<Rightarrow> nat" where
  "longest_border_upto xs 0 = 0"
| "longest_border_upto xs (Suc b) =
     (if border xs (Suc b) then Suc b else longest_border_upto xs b)"

definition lps_brute :: "'a list \<Rightarrow> nat" where
  "lps_brute xs = longest_border_upto xs (length xs - 1)"

text \<open>
  \<open>occurs_at text kw r\<close>: the pattern occurs in the text at index \<open>r\<close>. \<open>naive_find\<close>
  tries the indices \<open>0\<close>, \<open>1\<close>, ... in turn and returns the first at which the pattern
  occurs, or \<open>-1\<close>.
\<close>

definition occurs_at :: "'a list \<Rightarrow> 'a list \<Rightarrow> nat \<Rightarrow> bool" where
  "occurs_at text kw r =
     (r + length kw \<le> length text \<and> take (length kw) (drop r text) = kw)"

definition naive_find :: "'a list \<Rightarrow> 'a list \<Rightarrow> int" where
  "naive_find text kw =
     (case List.find (occurs_at text kw) [0..<Suc (length text)] of
        None \<Rightarrow> - 1
      | Some r \<Rightarrow> int r)"

section \<open>Loop invariants\<close>

text \<open>
  \<open>table_ok p t\<close>: the table has one entry per unit of the pattern, and entry \<open>k\<close> is the
  longest proper border of the first \<open>k + 1\<close> units. \<open>table_inv\<close> holds whenever the
  condition of the table builder's loop is evaluated.
\<close>

definition table_ok :: "'a list \<Rightarrow> nat list \<Rightarrow> bool" where
  "table_ok p t = (length t = length p \<and> (\<forall>k<length p. t ! k = lps_brute (take (Suc k) p)))"

definition table_inv :: "'a list \<Rightarrow> nat \<Rightarrow> nat \<Rightarrow> nat list \<Rightarrow> bool" where
  "table_inv p i j t =
     (i \<le> length p \<and> j < i \<and> length t = length p \<and>
      (\<forall>k<i. t ! k = lps_brute (take (Suc k) p)) \<and>
      border (take i p) j \<and>
      (\<forall>b. j < b \<and> b < i \<and> border (take i p) b \<longrightarrow> p ! b \<noteq> p ! i))"

text \<open>
  \<open>find_inv s p i j\<close> holds whenever the condition of the scanner's loop is evaluated:
  the first \<open>j\<close> units of the pattern match the text just before \<open>i\<close>, and the pattern
  occurs nowhere before \<open>i - j\<close>. \<open>find_post\<close> describes the cursors with which the loop
  is left: by the \<open>break\<close>, with \<open>j\<close> at the pattern length, just behind the first
  occurrence; or at the end of the text, when the pattern occurs nowhere.
\<close>

definition find_inv :: "'a list \<Rightarrow> 'a list \<Rightarrow> nat \<Rightarrow> nat \<Rightarrow> bool" where
  "find_inv s p i j =
     (j \<le> i \<and> i \<le> length s \<and> j < length p \<and>
      (\<forall>k<j. s ! (i - j + k) = p ! k) \<and>
      (\<forall>r<i - j. \<not> occurs_at s p r))"

definition find_post :: "'a list \<Rightarrow> 'a list \<Rightarrow> nat \<Rightarrow> nat \<Rightarrow> bool" where
  "find_post s p i j =
     (if j = length p
      then length p \<le> i \<and> i \<le> length s \<and> occurs_at s p (i - length p) \<and>
           (\<forall>r<i - length p. \<not> occurs_at s p r)
      else i = length s \<and> (\<forall>r. \<not> occurs_at s p r))"

section \<open>UTF-16, for reference\<close>

text \<open>
  A Unicode scalar value is a code point outside the surrogate range. UTF-16 writes a
  scalar value below \<open>0x10000\<close> as one code unit, and any other as a lead surrogate
  followed by a trail surrogate. \<open>utf16_string\<close> is the JavaScript string of a sequence
  of code points.
\<close>

definition scalar_value :: "nat \<Rightarrow> bool" where
  "scalar_value c = (c < 0x110000 \<and> \<not> (0xD800 \<le> c \<and> c \<le> 0xDFFF))"

definition utf16_of :: "nat \<Rightarrow> js_string" where
  "utf16_of c =
     (if c < 0x10000 then [word_of_nat c]
      else [word_of_nat (0xD800 + (c - 0x10000) div 0x400),
            word_of_nat (0xDC00 + (c - 0x10000) mod 0x400)])"

definition utf16_string :: "nat list \<Rightarrow> js_string" where
  "utf16_string cs = concat (map utf16_of cs)"

section \<open>Borders\<close>

lemma border_nth:
  "border xs b \<longleftrightarrow> b \<le> length xs \<and> (\<forall>k<b. xs ! k = xs ! (length xs - b + k))"
  by (auto simp: border_def list_eq_iff_nth_eq)

lemma border_take_nth:
  "i \<le> length p \<Longrightarrow> border (take i p) b \<longleftrightarrow> b \<le> i \<and> (\<forall>k<b. p ! k = p ! (i - b + k))"
  by (auto simp: border_nth)

lemma occurs_at_nth:
  "occurs_at s p r \<longleftrightarrow> r + length p \<le> length s \<and> (\<forall>k<length p. s ! (r + k) = p ! k)"
  by (auto simp: occurs_at_def list_eq_iff_nth_eq)

lemma border_0: "border xs 0"
  by (simp add: border_def)

lemma lbu_le: "longest_border_upto xs c \<le> c"
  by (induction c) auto

lemma lbu_border: "border xs (longest_border_upto xs c)"
  by (induction c) (auto simp: border_0)

lemma lbu_max: "border xs b \<Longrightarrow> b \<le> c \<Longrightarrow> b \<le> longest_border_upto xs c"
  by (induction c) (auto simp: le_Suc_eq)

lemma lps_border: "border xs (lps_brute xs)"
  by (simp add: lps_brute_def lbu_border)

lemma lps_less: "xs \<noteq> [] \<Longrightarrow> lps_brute xs < length xs"
  using lbu_le [of xs "length xs - 1"] by (cases xs) (auto simp: lps_brute_def)

lemma lps_max: "border xs b \<Longrightarrow> b < length xs \<Longrightarrow> b \<le> lps_brute xs"
  by (simp add: lps_brute_def lbu_max)

lemma lps_eqI:
  assumes "border xs b" "b < length xs" "\<And>c. border xs c \<Longrightarrow> c < length xs \<Longrightarrow> c \<le> b"
  shows "lps_brute xs = b"
proof (rule antisym)
  have "xs \<noteq> []" using assms(2) by auto
  then show "lps_brute xs \<le> b"
    using assms(3) [OF lps_border lps_less] by simp
  show "b \<le> lps_brute xs"
    using assms(1,2) by (rule lps_max)
qed

lemma border_extend:
  assumes "i < length p" "b < i"
  shows "border (take (Suc i) p) (Suc b) \<longleftrightarrow> border (take i p) b \<and> p ! b = p ! i"
proof -
  have "(\<forall>k<Suc b. p ! k = p ! (Suc i - Suc b + k)) \<longleftrightarrow>
        (\<forall>k<b. p ! k = p ! (i - b + k)) \<and> p ! b = p ! i"
    using assms by (auto simp: less_Suc_eq)
  then show ?thesis
    using assms by (simp add: border_take_nth)
qed

lemma border_of_border:
  assumes "border xs j" "border (take j xs) b"
  shows "border xs b"
proof -
  let ?n = "length xs"
  have j: "j \<le> ?n" and xj: "\<And>k. k < j \<Longrightarrow> xs ! k = xs ! (?n - j + k)"
    using assms(1) by (auto simp: border_nth)
  have b: "b \<le> j" and xb: "\<And>k. k < b \<Longrightarrow> xs ! k = xs ! (j - b + k)"
    using assms(2) j by (auto simp: border_take_nth)
  have "xs ! k = xs ! (?n - b + k)" if "k < b" for k
  proof -
    have "xs ! k = xs ! (j - b + k)" using xb that by simp
    also have "\<dots> = xs ! (?n - j + (j - b + k))" using xj [of "j - b + k"] that b by simp
    also have "?n - j + (j - b + k) = ?n - b + k" using that b j by simp
    finally show ?thesis .
  qed
  then show ?thesis using b j by (simp add: border_nth)
qed

lemma border_smaller:
  assumes "border xs j" "border xs b" "b \<le> j"
  shows "border (take j xs) b"
proof -
  let ?n = "length xs"
  have j: "j \<le> ?n" and xj: "\<And>k. k < j \<Longrightarrow> xs ! k = xs ! (?n - j + k)"
    using assms(1) by (auto simp: border_nth)
  have xb: "\<And>k. k < b \<Longrightarrow> xs ! k = xs ! (?n - b + k)"
    using assms(2) by (auto simp: border_nth)
  have "xs ! k = xs ! (j - b + k)" if "k < b" for k
  proof -
    have "xs ! (j - b + k) = xs ! (?n - j + (j - b + k))"
      using xj [of "j - b + k"] that assms(3) by simp
    also have "?n - j + (j - b + k) = ?n - b + k" using that assms(3) j by simp
    finally show ?thesis using xb that by simp
  qed
  then show ?thesis using assms(3) j by (simp add: border_take_nth)
qed

lemma lps_take_less:
  assumes "0 < j" "j \<le> length p"
  shows "lps_brute (take j p) < j"
proof -
  have "take j p \<noteq> []" using assms by auto
  from lps_less [OF this] assms show ?thesis by simp
qed

lemma table_step_match:
  assumes inv: "table_inv p i j t" and i: "i < length p" and eq: "p ! i = p ! j"
  shows "table_inv p (Suc i) (Suc j) (t[i := Suc j])"
proof -
  have ji: "j < i" and len: "length t = length p"
    and ent: "\<And>k. k < i \<Longrightarrow> t ! k = lps_brute (take (Suc k) p)"
    and bj: "border (take i p) j"
    and mx: "\<And>b. j < b \<Longrightarrow> b < i \<Longrightarrow> border (take i p) b \<Longrightarrow> p ! b \<noteq> p ! i"
    using inv by (auto simp: table_inv_def)
  have bS: "border (take (Suc i) p) (Suc j)"
    using border_extend [OF i ji] bj eq by simp
  have top: "c \<le> Suc j" if "border (take (Suc i) p) c" "c < Suc i" for c
  proof (cases c)
    case 0
    then show ?thesis by simp
  next
    case (Suc b)
    then have "b < i" using that by simp
    then have "border (take i p) b" "p ! b = p ! i"
      using border_extend [OF i, of b] that Suc by simp_all
    then have "\<not> j < b" using mx [of b] \<open>b < i\<close> by auto
    then show ?thesis using Suc by simp
  qed
  have lps: "lps_brute (take (Suc i) p) = Suc j"
    using bS ji i top by (intro lps_eqI) auto
  have ent': "(t[i := Suc j]) ! k = lps_brute (take (Suc k) p)" if "k < Suc i" for k
    using that ent lps i len by (cases "k = i") auto
  have mx': "p ! b \<noteq> p ! Suc i" if "Suc j < b" "b < Suc i" "border (take (Suc i) p) b" for b
    using top [of b] that by simp
  show ?thesis
    unfolding table_inv_def using i ji len ent' bS mx' by auto
qed

lemma table_step_zero:
  assumes inv: "table_inv p i 0 t" and i: "i < length p" and ne: "p ! i \<noteq> p ! 0"
  shows "table_inv p (Suc i) 0 (t[i := 0])"
proof -
  have i0: "0 < i" and len: "length t = length p"
    and ent: "\<And>k. k < i \<Longrightarrow> t ! k = lps_brute (take (Suc k) p)"
    and mx: "\<And>b. 0 < b \<Longrightarrow> b < i \<Longrightarrow> border (take i p) b \<Longrightarrow> p ! b \<noteq> p ! i"
    using inv by (auto simp: table_inv_def)
  have top: "c = 0" if "border (take (Suc i) p) c" "c < Suc i" for c
  proof (cases c)
    case 0
    then show ?thesis by simp
  next
    case (Suc b)
    then have "b < i" using that by simp
    then have "border (take i p) b" "p ! b = p ! i"
      using border_extend [OF i, of b] that Suc by simp_all
    then have False using mx [of b] \<open>b < i\<close> ne by (cases "b = 0") auto
    then show ?thesis ..
  qed
  have lps: "lps_brute (take (Suc i) p) = 0"
    using i top by (intro lps_eqI) (auto simp: border_0)
  have ent': "(t[i := 0]) ! k = lps_brute (take (Suc k) p)" if "k < Suc i" for k
    using that ent lps i len by (cases "k = i") auto
  have mx': "p ! b \<noteq> p ! Suc i" if "0 < b" "b < Suc i" "border (take (Suc i) p) b" for b
    using top [of b] that by simp
  show ?thesis
    unfolding table_inv_def using i len ent' mx' by (auto simp: border_0)
qed

lemma table_step_back:
  assumes inv: "table_inv p i j t" and i: "i < length p" and ne: "p ! i \<noteq> p ! j" and j: "0 < j"
  shows "table_inv p i (t ! (j - 1)) t \<and> t ! (j - 1) < j"
proof -
  have ji: "j < i" and len: "length t = length p"
    and ent: "\<And>k. k < i \<Longrightarrow> t ! k = lps_brute (take (Suc k) p)"
    and bj: "border (take i p) j"
    and mx: "\<And>b. j < b \<Longrightarrow> b < i \<Longrightarrow> border (take i p) b \<Longrightarrow> p ! b \<noteq> p ! i"
    using inv by (auto simp: table_inv_def)
  let ?j' = "t ! (j - 1)"
  have tj: "take j (take i p) = take j p" using ji by (simp add: min_def)
  have j': "?j' = lps_brute (take j p)" using ent [of "j - 1"] j ji by simp
  have lt: "?j' < j" using j' lps_take_less [of j p] j ji i by simp
  have "border (take j p) ?j'" using j' lps_border [of "take j p"] by simp
  then have bj': "border (take i p) ?j'"
    using border_of_border [OF bj] tj by simp
  have mx': "p ! b \<noteq> p ! i" if "?j' < b" "b < i" "border (take i p) b" for b
  proof -
    consider "j < b" | "b = j" | "b < j" by linarith
    then show ?thesis
    proof cases
      case 1
      then show ?thesis using mx that by simp
    next
      case 2
      then show ?thesis using ne by simp
    next
      case 3
      then have "border (take j p) b"
        using border_smaller [OF bj that(3)] tj by simp
      then have "b \<le> ?j'" using lps_max [of "take j p" b] 3 ji i j' by simp
      then show ?thesis using that by simp
    qed
  qed
  have lti: "?j' < i" using lt ji by simp
  have "i \<le> length p" using i by simp
  then show ?thesis
    unfolding table_inv_def using lti lt len ent bj' mx' by blast
qed

section \<open>The table builder returns the table of longest borders\<close>

lemma table_loop_total:
  "table_inv p i j t \<Longrightarrow>
     \<exists>t'. table_loop p i j t = Some (Inr t') \<and>
          table_loop_checked p i j t = Some (Inr t') \<and> table_ok p t'"
proof (induction "2 * (length p - i) + j" arbitrary: i j t rule: less_induct)
  case less
  note inv = less.prems
  have ji: "j < i" and il: "i \<le> length p" and len: "length t = length p"
    using inv by (auto simp: table_inv_def)
  show ?case
  proof (cases "i < length p")
    case False
    then have "i = length p" using il by simp
    then have "table_ok p t" using inv by (auto simp: table_inv_def table_ok_def)
    moreover have "table_loop p i j t = Some (Inr t)"
      using False by (subst table_loop.simps) simp
    moreover have "table_loop_checked p i j t = Some (Inr t)"
      using False by (subst table_loop_checked.simps) simp
    ultimately show ?thesis by blast
  next
    case True
    have rd: "js_nth p i = Some (p ! i)" "js_nth p j = Some (p ! j)"
      using True ji by (simp_all add: js_nth_def)
    have wr: "js_set t i v = Inr (t[i := v])" for v
      using True len by (simp add: js_set_def)
    consider (match) "p ! i = p ! j" | (zero) "p ! i \<noteq> p ! j" "j = 0"
      | (fallback) "p ! i \<noteq> p ! j" "0 < j" by blast
    then show ?thesis
    proof cases
      case match
      have inv': "table_inv p (Suc i) (Suc j) (t[i := Suc j])"
        using table_step_match [OF inv True match] .
      have "2 * (length p - Suc i) + Suc j < 2 * (length p - i) + j"
        using True by simp
      from less.hyps [OF this inv'] obtain t' where
        t': "table_loop p (Suc i) (Suc j) (t[i := Suc j]) = Some (Inr t')"
            "table_loop_checked p (Suc i) (Suc j) (t[i := Suc j]) = Some (Inr t')"
            "table_ok p t'" by blast
      have "table_loop p i j t = Some (Inr t')"
        using True rd wr match t'(1) by (subst table_loop.simps) simp
      moreover have "table_loop_checked p i j t = Some (Inr t')"
        using True rd wr match t'(2) by (subst table_loop_checked.simps) simp
      ultimately show ?thesis using t'(3) by blast
    next
      case zero
      have inv': "table_inv p (Suc i) 0 (t[i := 0])"
        using table_step_zero [OF _ True] inv zero by simp
      have "2 * (length p - Suc i) + 0 < 2 * (length p - i) + j"
        using True by simp
      from less.hyps [OF this inv'] obtain t' where
        t': "table_loop p (Suc i) 0 (t[i := 0]) = Some (Inr t')"
            "table_loop_checked p (Suc i) 0 (t[i := 0]) = Some (Inr t')"
            "table_ok p t'" by blast
      have "table_loop p i j t = Some (Inr t')"
        using True rd wr zero t'(1) by (subst table_loop.simps) simp
      moreover have "table_loop_checked p i j t = Some (Inr t')"
        using True rd wr zero t'(2) by (subst table_loop_checked.simps) simp
      ultimately show ?thesis using t'(3) by blast
    next
      case fallback
      have inv': "table_inv p i (t ! (j - 1)) t" and lt: "t ! (j - 1) < j"
        using table_step_back [OF inv True fallback] by simp_all
      have rt: "js_nth t (j - 1) = Some (t ! (j - 1))"
        using fallback(2) ji il len by (simp add: js_nth_def)
      have "2 * (length p - i) + t ! (j - 1) < 2 * (length p - i) + j"
        using lt by simp
      from less.hyps [OF this inv'] obtain t' where
        t': "table_loop p i (t ! (j - 1)) t = Some (Inr t')"
            "table_loop_checked p i (t ! (j - 1)) t = Some (Inr t')"
            "table_ok p t'" by blast
      have "table_loop p i j t = Some (Inr t')"
        using True rd rt fallback t'(1) by (subst table_loop.simps) simp
      moreover have "table_loop_checked p i j t = Some (Inr t')"
        using True rd rt fallback t'(2) by (subst table_loop_checked.simps) simp
      ultimately show ?thesis using t'(3) by blast
    qed
  qed
qed

lemma lps_brute_single: "lps_brute [x] = 0"
  by (simp add: lps_brute_def)

lemma table_inv_init: "p \<noteq> [] \<Longrightarrow> table_inv p 1 0 (replicate (length p) 0)"
  by (cases p) (auto simp: table_inv_def border_0 lps_brute_single)

lemma makePartialMatchTable_total:
  "\<exists>t. makePartialMatchTable p = Some (Inr t) \<and>
       makePartialMatchTable_checked p = Some (Inr t) \<and> table_ok p t"
proof (cases "p = []")
  case True
  have "table_loop p 1 0 [] = Some (Inr [])"
    using True by (subst table_loop.simps) simp
  moreover have "table_loop_checked p 1 0 [] = Some (Inr [])"
    using True by (subst table_loop_checked.simps) simp
  ultimately show ?thesis
    using True by (simp add: makePartialMatchTable_def makePartialMatchTable_checked_def table_ok_def)
next
  case False
  from table_loop_total [OF table_inv_init [OF False]] show ?thesis
    by (simp add: makePartialMatchTable_def makePartialMatchTable_checked_def)
qed

lemma table_ok_bound:
  assumes "table_ok p t" "k < length p"
  shows "t ! k \<le> k"
proof -
  have "lps_brute (take (Suc k) p) < Suc k"
    using lps_take_less [of "Suc k" p] assms(2) by simp
  then show ?thesis using assms by (simp add: table_ok_def)
qed

section \<open>Properties of \<open>makePartialMatchTable\<close>\<close>

text \<open>
  C3: for every pattern \<open>P\<close> and every index \<open>k < length P\<close>, the table builder returns
  a table whose entry \<open>k\<close> is the length of the longest proper prefix of the first
  \<open>k + 1\<close> units of \<open>P\<close> that is also a proper suffix of them, as the brute-force
  reference \<open>lps_brute\<close> computes it.
\<close>

theorem table_is_longest_border:
  assumes "k < length P"
  shows "\<exists>t. makePartialMatchTable P = Some (Inr t) \<and>
           t ! k = lps_brute (take (Suc k) P) \<and>
           t ! k < Suc k \<and> border (take (Suc k) P) (t ! k) \<and>
           (\<forall>b. b < Suc k \<and> border (take (Suc k) P) b \<longrightarrow> b \<le> t ! k)"
proof -
  from makePartialMatchTable_total [of P] obtain t where
    t: "makePartialMatchTable P = Some (Inr t)" "table_ok P t" by blast
  let ?xs = "take (Suc k) P"
  have len: "length ?xs = Suc k" using assms by simp
  have e: "t ! k = lps_brute ?xs" using t(2) assms by (simp add: table_ok_def)
  have "lps_brute ?xs < Suc k" using lps_take_less [of "Suc k" P] assms by simp
  moreover have "border ?xs (lps_brute ?xs)" by (rule lps_border)
  moreover have "b \<le> lps_brute ?xs" if "b < Suc k" "border ?xs b" for b
    using lps_max [of ?xs b] that len by simp
  ultimately show ?thesis using t(1) e by auto
qed

theorem table_is_longest_border_witness:
  "5 < length ''aabaaa'' \<and>
   makePartialMatchTable ''aabaaa'' = Some (Inr [0, 1, 0, 1, 2, 2]) \<and>
   [0, 1, 0, 1, 2, 2] ! 5 = lps_brute (take (Suc 5) ''aabaaa'') \<and>
   lps_brute (take (Suc 5) ''aabaaa'') = 2"
proof -
  have h: "5 < length ''aabaaa''" by simp
  have v: "makePartialMatchTable ''aabaaa'' = Some (Inr [0, 1, 0, 1, 2, 2])" by code_simp
  have l: "lps_brute (take (Suc 5) ''aabaaa'') = 2" by code_simp
  from table_is_longest_border [OF h] obtain t where
    t: "makePartialMatchTable ''aabaaa'' = Some (Inr t)"
       "t ! 5 = lps_brute (take (Suc 5) ''aabaaa'')" by blast
  from t(1) v have e: "t = [0, 1, 0, 1, 2, 2]" by simp
  from t(2) show ?thesis using h v l unfolding e by blast
qed

text \<open>
  C4: for every pattern \<open>P\<close> the table has the length of \<open>P\<close>; its entry \<open>0\<close> is \<open>0\<close> when
  \<open>P\<close> is not empty; and every entry \<open>k\<close> lies between \<open>0\<close> and \<open>k\<close>.
\<close>

theorem table_shape:
  "\<exists>t. makePartialMatchTable P = Some (Inr t) \<and> length t = length P \<and>
       (P \<noteq> [] \<longrightarrow> t ! 0 = 0) \<and> (\<forall>k<length P. 0 \<le> t ! k \<and> t ! k \<le> k)"
proof -
  from makePartialMatchTable_total [of P] obtain t where
    t: "makePartialMatchTable P = Some (Inr t)" "table_ok P t" by blast
  have "length t = length P" using t(2) by (simp add: table_ok_def)
  moreover have "t ! k \<le> k" if "k < length P" for k
    using table_ok_bound [OF t(2) that] .
  moreover have "t ! 0 = 0" if "P \<noteq> []"
    using table_ok_bound [OF t(2), of 0] that by simp
  ultimately show ?thesis using t(1) by auto
qed

theorem table_shape_witness:
  "''aaaab'' \<noteq> [] \<and>
   makePartialMatchTable ''aaaab'' = Some (Inr [0, 1, 2, 3, 0]) \<and>
   length [0, 1, 2, 3, 0 :: nat] = length ''aaaab'' \<and>
   [0, 1, 2, 3, 0 :: nat] ! 0 = 0 \<and> [0, 1, 2, 3, 0 :: nat] ! 3 \<le> 3"
proof -
  have v: "makePartialMatchTable ''aaaab'' = Some (Inr [0, 1, 2, 3, 0])" by code_simp
  have h: "''aaaab'' \<noteq> []" by simp
  have k: "3 < length ''aaaab''" by simp
  from table_shape [of "''aaaab''"] obtain t where
    t: "makePartialMatchTable ''aaaab'' = Some (Inr t)" "length t = length ''aaaab''"
       "''aaaab'' \<noteq> [] \<longrightarrow> t ! 0 = 0" "\<forall>k<length ''aaaab''. 0 \<le> t ! k \<and> t ! k \<le> k"
    by blast
  from t(1) v have e: "t = [0, 1, 2, 3, 0]" by simp
  from t(3) h have "t ! 0 = 0" by blast
  moreover from t(4) k have "t ! 3 \<le> 3" by blast
  ultimately show ?thesis using h v t(2) unfolding e by blast
qed

text \<open>
  C5: the tables of the five patterns of the test suite, built as the tests build them,
  from the characters of each string.
\<close>

theorem table_examples:
  "makePartialMatchTable (stringToChars (js_str ''abaab'')) = Some (Inr [0, 0, 1, 1, 2]) \<and>
   makePartialMatchTable (stringToChars (js_str ''aaaab'')) = Some (Inr [0, 1, 2, 3, 0]) \<and>
   makePartialMatchTable (stringToChars (js_str ''aabaaa'')) = Some (Inr [0, 1, 0, 1, 2, 2]) \<and>
   makePartialMatchTable (stringToChars (js_str ''abcdabd'')) =
     Some (Inr [0, 0, 0, 0, 1, 2, 0]) \<and>
   makePartialMatchTable (stringToChars (js_str ''hello world'')) = Some (Inr (replicate 11 0))"
  by (intro conjI; code_simp)

text \<open>
  C6: the table builder returns on every pattern (its result is never \<open>None\<close>, the run
  without end), and in the table it returns the fallback \<open>table[j - 1]\<close> is below \<open>j\<close> for
  every \<open>j\<close> from which the loop can fall back. The measure \<open>2 * (length - i) + j\<close>
  decreases in each round of the loop, see \<open>table_loop_total\<close>.
\<close>

theorem table_terminates:
  "\<exists>t. makePartialMatchTable P = Some (Inr t) \<and>
       (\<forall>j. 0 < j \<and> j \<le> length P \<longrightarrow> t ! (j - 1) < j)"
proof -
  from makePartialMatchTable_total [of P] obtain t where
    t: "makePartialMatchTable P = Some (Inr t)" "table_ok P t" by blast
  have "t ! (j - 1) < j" if "0 < j" "j \<le> length P" for j
    using table_ok_bound [OF t(2), of "j - 1"] that by (cases j) auto
  then show ?thesis using t(1) by auto
qed

theorem table_terminates_witness:
  "makePartialMatchTable ''abcdabd'' = Some (Inr [0, 0, 0, 0, 1, 2, 0]) \<and>
   (0::nat) < 6 \<and> 6 \<le> length ''abcdabd'' \<and> [0, 0, 0, 0, 1, 2, 0 :: nat] ! (6 - 1) < 6"
proof -
  have v: "makePartialMatchTable ''abcdabd'' = Some (Inr [0, 0, 0, 0, 1, 2, 0])" by code_simp
  have h: "(0::nat) < 6" "6 \<le> length ''abcdabd''" by simp_all
  from table_terminates [of "''abcdabd''"] obtain t where
    t: "makePartialMatchTable ''abcdabd'' = Some (Inr t)"
       "\<forall>j. 0 < j \<and> j \<le> length ''abcdabd'' \<longrightarrow> t ! (j - 1) < j"
    by blast
  from t(1) v have e: "t = [0, 0, 0, 0, 1, 2, 0]" by simp
  from t(2) h have "t ! (6 - 1) < 6" by blast
  then show ?thesis using v h unfolding e by blast
qed

section \<open>The scanner leaves its loop at the first occurrence\<close>

lemma find_step_match:
  assumes inv: "find_inv s p i j" and i: "i < length s" and eq: "s ! i = p ! j"
    and j: "Suc j \<noteq> length p"
  shows "find_inv s p (Suc i) (Suc j)"
proof -
  have ji: "j \<le> i" and jm: "j < length p"
    and mt: "\<And>k. k < j \<Longrightarrow> s ! (i - j + k) = p ! k"
    and no: "\<And>r. r < i - j \<Longrightarrow> \<not> occurs_at s p r"
    using inv by (auto simp: find_inv_def)
  have "s ! (Suc i - Suc j + k) = p ! k" if "k < Suc j" for k
    using that mt eq ji by (cases "k = j") auto
  then show ?thesis
    unfolding find_inv_def using ji jm i j no by auto
qed

lemma find_step_found:
  assumes inv: "find_inv s p i j" and i: "i < length s" and eq: "s ! i = p ! j"
    and j: "Suc j = length p"
  shows "find_post s p (Suc i) (Suc j)"
proof -
  have ji: "j \<le> i"
    and mt: "\<And>k. k < j \<Longrightarrow> s ! (i - j + k) = p ! k"
    and no: "\<And>r. r < i - j \<Longrightarrow> \<not> occurs_at s p r"
    using inv by (auto simp: find_inv_def)
  have "s ! (i - j + k) = p ! k" if "k < Suc j" for k
    using that mt eq ji by (cases "k = j") auto
  then have "occurs_at s p (i - j)"
    using j ji i by (auto simp: occurs_at_nth)
  moreover have "Suc i - length p = i - j" using j by simp
  ultimately show ?thesis
    unfolding find_post_def using j ji i no by auto
qed

lemma find_step_zero:
  assumes inv: "find_inv s p i 0" and i: "i < length s" and ne: "s ! i \<noteq> p ! 0"
  shows "find_inv s p (Suc i) 0"
proof -
  have jm: "0 < length p" and no: "\<And>r. r < i \<Longrightarrow> \<not> occurs_at s p r"
    using inv by (auto simp: find_inv_def)
  have "\<not> occurs_at s p i"
    using ne jm by (auto simp: occurs_at_nth)
  then have "\<not> occurs_at s p r" if "r < Suc i" for r
    using that no by (cases "r = i") auto
  then show ?thesis
    unfolding find_inv_def using jm i by auto
qed

lemma find_step_back:
  assumes inv: "find_inv s p i j" and i: "i < length s" and ne: "s ! i \<noteq> p ! j"
    and j: "0 < j" and tab: "table_ok p t"
  shows "find_inv s p i (t ! (j - 1)) \<and> t ! (j - 1) < j"
proof -
  have ji: "j \<le> i" and jm: "j < length p"
    and mt: "\<And>k. k < j \<Longrightarrow> s ! (i - j + k) = p ! k"
    and no: "\<And>r. r < i - j \<Longrightarrow> \<not> occurs_at s p r"
    using inv by (auto simp: find_inv_def)
  let ?j' = "t ! (j - 1)"
  have j': "?j' = lps_brute (take j p)"
    using tab j jm by (simp add: table_ok_def)
  have lt: "?j' < j" using j' lps_take_less [of j p] j jm by simp
  have "border (take j p) ?j'" using j' lps_border [of "take j p"] by simp
  then have bd: "\<And>k. k < ?j' \<Longrightarrow> p ! k = p ! (j - ?j' + k)"
    using jm by (simp add: border_take_nth)
  have mt': "s ! (i - ?j' + k) = p ! k" if "k < ?j'" for k
  proof -
    have e: "i - ?j' + k = i - j + (j - ?j' + k)" using lt ji by simp
    have "s ! (i - j + (j - ?j' + k)) = p ! (j - ?j' + k)"
      using mt [of "j - ?j' + k"] that lt by simp
    then have "s ! (i - ?j' + k) = p ! (j - ?j' + k)" by (simp only: e)
    then show ?thesis using bd [OF that] by simp
  qed
  have no': "\<not> occurs_at s p r" if r: "r < i - ?j'" for r
  proof
    assume occ: "occurs_at s p r"
    then have rl: "r + length p \<le> length s" and oc: "\<And>k. k < length p \<Longrightarrow> s ! (r + k) = p ! k"
      by (auto simp: occurs_at_nth)
    have "\<not> r < i - j" using no occ by blast
    moreover have "r \<noteq> i - j"
    proof
      assume "r = i - j"
      then have "s ! i = p ! j" using oc [of j] jm ji by simp
      then show False using ne by simp
    qed
    ultimately have r1: "i - j < r" by simp
    define b where "b = i - r"
    have b: "?j' < b" "b < j" "r = i - b" using r r1 ji lt by (auto simp: b_def)
    have "p ! k = p ! (j - b + k)" if "k < b" for k
    proof -
      have "p ! k = s ! (r + k)" using oc [of k] that b jm by simp
      also have "r + k = i - j + (j - b + k)" using b that ji r by simp
      also have "s ! (i - j + (j - b + k)) = p ! (j - b + k)"
        using mt [of "j - b + k"] that b by simp
      finally show ?thesis .
    qed
    then have "border (take j p) b" using b jm by (simp add: border_take_nth)
    then have "b \<le> ?j'" using lps_max [of "take j p" b] b jm j' by simp
    then show False using b by simp
  qed
  show ?thesis
    unfolding find_inv_def using ji jm lt i mt' no' by auto
qed

lemma find_exit:
  assumes inv: "find_inv s p (length s) j"
  shows "find_post s p (length s) j"
proof -
  have jm: "j < length p" and no: "\<And>r. r < length s - j \<Longrightarrow> \<not> occurs_at s p r"
    using inv by (auto simp: find_inv_def)
  have "\<not> occurs_at s p r" for r
  proof (cases "r < length s - j")
    case True
    then show ?thesis using no by simp
  next
    case False
    then have "length s < r + length p" using jm by simp
    then show ?thesis by (simp add: occurs_at_def)
  qed
  then show ?thesis unfolding find_post_def using jm by simp
qed

lemma find_loop_total:
  "table_ok p t \<Longrightarrow> find_inv s p i j \<Longrightarrow>
     \<exists>i' j'. find_loop s p t i j = Some (Inr (i', j')) \<and>
            find_loop_checked s p t i j = Some (Inr (i', j')) \<and> find_post s p i' j'"
proof (induction "2 * (length s - i) + j" arbitrary: i j rule: less_induct)
  case less
  note tab = less.prems(1) and inv = less.prems(2)
  have ji: "j \<le> i" and il: "i \<le> length s" and jm: "j < length p"
    using inv by (auto simp: find_inv_def)
  have len: "length t = length p" using tab by (simp add: table_ok_def)
  show ?case
  proof (cases "i < length s")
    case False
    then have "i = length s" using il by simp
    then have "find_post s p i j" using find_exit inv by blast
    moreover have "find_loop s p t i j = Some (Inr (i, j))"
      using False by (subst find_loop.simps) simp
    moreover have "find_loop_checked s p t i j = Some (Inr (i, j))"
      using False by (subst find_loop_checked.simps) simp
    ultimately show ?thesis by blast
  next
    case True
    have rd: "js_nth s i = Some (s ! i)" "js_nth p j = Some (p ! j)"
      using True jm by (simp_all add: js_nth_def)
    consider (found) "s ! i = p ! j" "Suc j = length p"
      | (hit) "s ! i = p ! j" "Suc j \<noteq> length p"
      | (zero) "s ! i \<noteq> p ! j" "j = 0"
      | (fallback) "s ! i \<noteq> p ! j" "0 < j" by blast
    then show ?thesis
    proof cases
      case found
      have "find_post s p (Suc i) (Suc j)"
        using find_step_found [OF inv True found] .
      moreover have "find_loop s p t i j = Some (Inr (Suc i, Suc j))"
        using True rd found by (subst find_loop.simps) simp
      moreover have "find_loop_checked s p t i j = Some (Inr (Suc i, Suc j))"
        using True rd found by (subst find_loop_checked.simps) simp
      ultimately show ?thesis by blast
    next
      case hit
      have inv': "find_inv s p (Suc i) (Suc j)"
        using find_step_match [OF inv True hit] .
      have "2 * (length s - Suc i) + Suc j < 2 * (length s - i) + j"
        using True by simp
      from less.hyps [OF this tab inv'] obtain i' j' where
        r: "find_loop s p t (Suc i) (Suc j) = Some (Inr (i', j'))"
           "find_loop_checked s p t (Suc i) (Suc j) = Some (Inr (i', j'))"
           "find_post s p i' j'" by blast
      have "find_loop s p t i j = Some (Inr (i', j'))"
        using True rd hit r(1) by (subst find_loop.simps) simp
      moreover have "find_loop_checked s p t i j = Some (Inr (i', j'))"
        using True rd hit r(2) by (subst find_loop_checked.simps) simp
      ultimately show ?thesis using r(3) by blast
    next
      case zero
      have inv': "find_inv s p (Suc i) 0"
        using find_step_zero [OF _ True] inv zero by simp
      have "2 * (length s - Suc i) + 0 < 2 * (length s - i) + j"
        using True by simp
      from less.hyps [OF this tab inv'] obtain i' j' where
        r: "find_loop s p t (Suc i) 0 = Some (Inr (i', j'))"
           "find_loop_checked s p t (Suc i) 0 = Some (Inr (i', j'))"
           "find_post s p i' j'" by blast
      have "find_loop s p t i j = Some (Inr (i', j'))"
        using True rd zero r(1) by (subst find_loop.simps) simp
      moreover have "find_loop_checked s p t i j = Some (Inr (i', j'))"
        using True rd zero r(2) by (subst find_loop_checked.simps) simp
      ultimately show ?thesis using r(3) by blast
    next
      case fallback
      have inv': "find_inv s p i (t ! (j - 1))" and lt: "t ! (j - 1) < j"
        using find_step_back [OF inv True fallback tab] by simp_all
      have rt: "js_nth t (j - 1) = Some (t ! (j - 1))"
        using fallback(2) jm len by (simp add: js_nth_def)
      have "2 * (length s - i) + t ! (j - 1) < 2 * (length s - i) + j"
        using lt by simp
      from less.hyps [OF this tab inv'] obtain i' j' where
        r: "find_loop s p t i (t ! (j - 1)) = Some (Inr (i', j'))"
           "find_loop_checked s p t i (t ! (j - 1)) = Some (Inr (i', j'))"
           "find_post s p i' j'" by blast
      have "find_loop s p t i j = Some (Inr (i', j'))"
        using True rd rt fallback r(1) by (subst find_loop.simps) simp
      moreover have "find_loop_checked s p t i j = Some (Inr (i', j'))"
        using True rd rt fallback r(2) by (subst find_loop_checked.simps) simp
      ultimately show ?thesis using r(3) by blast
    qed
  qed
qed

lemma find_inv_init: "p \<noteq> [] \<Longrightarrow> find_inv s p 0 0"
  by (simp add: find_inv_def)

section \<open>The brute-force search\<close>

lemma naive_find_first:
  assumes "occurs_at s p r" "\<And>r'. r' < r \<Longrightarrow> \<not> occurs_at s p r'"
  shows "naive_find s p = int r"
proof -
  have r: "r < Suc (length s)" using assms(1) by (simp add: occurs_at_def)
  have "List.find (occurs_at s p) [0..<Suc (length s)] = Some r"
    unfolding find_Some_iff
  proof (intro exI [of _ r] conjI allI impI)
    show "r < length [0..<Suc (length s)]" using r by simp
    show "occurs_at s p ([0..<Suc (length s)] ! r)" using r assms(1) by (simp del: upt_Suc)
    show "r = [0..<Suc (length s)] ! r" using r by (simp del: upt_Suc)
    show "\<not> occurs_at s p ([0..<Suc (length s)] ! k)" if "k < r" for k
      using that r assms(2) by (simp del: upt_Suc)
  qed
  then show ?thesis by (simp add: naive_find_def)
qed

lemma naive_find_none:
  assumes "\<And>r. \<not> occurs_at s p r"
  shows "naive_find s p = - 1"
proof -
  have "List.find (occurs_at s p) [0..<Suc (length s)] = None"
    unfolding find_None_iff using assms by blast
  then show ?thesis by (simp add: naive_find_def)
qed

lemma naive_find_ge: "- 1 \<le> naive_find s p"
  by (simp add: naive_find_def split: option.split)

lemma naive_find_eq_iff:
  "naive_find s p = int r \<longleftrightarrow> occurs_at s p r \<and> (\<forall>r'<r. \<not> occurs_at s p r')"
proof
  assume "naive_find s p = int r"
  then have f: "List.find (occurs_at s p) [0..<Suc (length s)] = Some r"
    by (auto simp: naive_find_def split: option.splits)
  then obtain i where i: "i < length [0..<Suc (length s)]"
    "occurs_at s p ([0..<Suc (length s)] ! i)" "r = [0..<Suc (length s)] ! i"
    "\<forall>k<i. \<not> occurs_at s p ([0..<Suc (length s)] ! k)"
    unfolding find_Some_iff by blast
  have il: "i < Suc (length s)" using i(1) by simp
  then have ri: "r = i" using i(3) by (simp del: upt_Suc)
  have "\<not> occurs_at s p k" if "k < i" for k
  proof -
    have "[0..<Suc (length s)] ! k = k" using that il by (simp del: upt_Suc)
    then show ?thesis using i(4) that by auto
  qed
  then show "occurs_at s p r \<and> (\<forall>r'<r. \<not> occurs_at s p r')"
    using i(2) il ri by (simp del: upt_Suc)
next
  assume "occurs_at s p r \<and> (\<forall>r'<r. \<not> occurs_at s p r')"
  then show "naive_find s p = int r" using naive_find_first [of s p r] by blast
qed

lemma naive_find_none_iff: "naive_find s p = - 1 \<longleftrightarrow> (\<forall>r. \<not> occurs_at s p r)"
proof
  assume a: "naive_find s p = - 1"
  show "\<forall>r. \<not> occurs_at s p r"
  proof (intro allI notI)
    fix r assume occ: "occurs_at s p r"
    define r0 where "r0 = (LEAST k. occurs_at s p k)"
    have "occurs_at s p r0" unfolding r0_def using occ by (rule LeastI)
    moreover have "\<not> occurs_at s p k" if "k < r0" for k
      using that not_less_Least unfolding r0_def by blast
    ultimately have "naive_find s p = int r0" by (simp add: naive_find_eq_iff)
    then show False using a by simp
  qed
next
  assume "\<forall>r. \<not> occurs_at s p r"
  then show "naive_find s p = - 1" using naive_find_none [of s p] by blast
qed

lemma find_post_naive:
  assumes "find_post s p i j" "p \<noteq> []"
  shows "(if i = length s then - 1 else int i - int (length p)) =
         (if naive_find s p + int (length p) = int (length s) then - 1 else naive_find s p)"
proof (cases "j = length p")
  case True
  then have a: "length p \<le> i" "i \<le> length s" "occurs_at s p (i - length p)"
    "\<And>r. r < i - length p \<Longrightarrow> \<not> occurs_at s p r"
    using assms(1) by (auto simp: find_post_def)
  have "naive_find s p = int (i - length p)"
    using naive_find_first [OF a(3,4)] .
  then show ?thesis using a(1,2) by (auto simp: of_nat_diff)
next
  case False
  then have a: "i = length s" "\<And>r. \<not> occurs_at s p r"
    using assms(1) by (auto simp: find_post_def)
  have "naive_find s p = - 1" using naive_find_none [OF a(2)] .
  then show ?thesis using a(1) by simp
qed

lemma find_KMP_result:
  assumes "stringToChars keywordStr \<noteq> []"
  shows "\<exists>t i j. makePartialMatchTable (stringToChars keywordStr) = Some (Inr t) \<and>
           find_loop (stringToChars testStr) (stringToChars keywordStr) t 0 0 = Some (Inr (i, j)) \<and>
           find_post (stringToChars testStr) (stringToChars keywordStr) i j \<and>
           find_KMP testStr keywordStr = Some (Inr (if i = length (stringToChars testStr) then - 1
                                         else int i - int (length (stringToChars keywordStr)))) \<and>
           find_KMP_checked testStr keywordStr = find_KMP testStr keywordStr"
proof -
  let ?T = "stringToChars testStr" and ?P = "stringToChars keywordStr"
  from makePartialMatchTable_total [of ?P] obtain t where
    t: "makePartialMatchTable ?P = Some (Inr t)"
       "makePartialMatchTable_checked ?P = Some (Inr t)" "table_ok ?P t" by blast
  from find_loop_total [OF t(3) find_inv_init [OF assms], of ?T] obtain i j where
    r: "find_loop ?T ?P t 0 0 = Some (Inr (i, j))"
       "find_loop_checked ?T ?P t 0 0 = Some (Inr (i, j))" "find_post ?T ?P i j" by blast
  have "find_KMP testStr keywordStr = Some (Inr (if i = length ?T then - 1 else int i - int (length ?P)))"
    using t(1) r(1) by (simp add: find_KMP_def)
  moreover have "find_KMP_checked testStr keywordStr =
      Some (Inr (if i = length ?T then - 1 else int i - int (length ?P)))"
    using t(2) r(2) by (simp add: find_KMP_checked_def)
  ultimately show ?thesis using t(1) r(1,3) by simp
qed

lemma find_loop_empty:
  "i \<le> length s \<Longrightarrow> find_loop s [] t i 0 = Some (Inr (length s, 0))"
proof (induction "length s - i" arbitrary: i)
  case 0
  then show ?case by (subst find_loop.simps) simp
next
  case (Suc d)
  then have "i < length s" by simp
  moreover have "find_loop s [] t (Suc i) 0 = Some (Inr (length s, 0))"
    using Suc by simp
  ultimately show ?case
    by (subst find_loop.simps) (simp add: js_nth_def)
qed

lemma table_empty: "makePartialMatchTable [] = Some (Inr [])"
  by (simp add: makePartialMatchTable_def table_loop.simps)

lemma stringToChars_Nil_iff: "stringToChars s = [] \<longleftrightarrow> s = []"
  by (induction s rule: stringToChars.induct) auto

section \<open>Characters of a string\<close>

lemma concat_stringToChars: "concat (stringToChars s) = s"
  by (induction s rule: stringToChars.induct) auto

lemma stringToChars_elements:
  "c \<in> set (stringToChars s) \<Longrightarrow>
     (\<exists>u. c = [u]) \<or> (\<exists>u v. c = [u, v] \<and> is_lead u \<and> is_trail v)"
  by (induction s rule: stringToChars.induct) (auto split: if_splits)

lemma is_lead_of_nat: "c < 0x10000 \<Longrightarrow> is_lead (word_of_nat c) \<longleftrightarrow> 0xD800 \<le> c \<and> c \<le> 0xDBFF"
  by (simp add: is_lead_def word_le_nat_alt unat_of_nat)

lemma is_trail_of_nat: "c < 0x10000 \<Longrightarrow> is_trail (word_of_nat c) \<longleftrightarrow> 0xDC00 \<le> c \<and> c \<le> 0xDFFF"
  by (simp add: is_trail_def word_le_nat_alt unat_of_nat)

lemma of_nat_16_inj:
  "c < 0x10000 \<Longrightarrow> d < 0x10000 \<Longrightarrow> (word_of_nat c :: 16 word) = word_of_nat d \<longleftrightarrow> c = d"
  by (simp add: word_of_nat_eq_iff take_bit_nat_eq_self)

lemma stringToChars_single:
  "\<not> is_lead u \<Longrightarrow> stringToChars (u # rest) = [u] # stringToChars rest"
  by (cases rest) auto

lemma stringToChars_utf16_of:
  assumes "scalar_value c"
  shows "stringToChars (utf16_of c @ rest) = utf16_of c # stringToChars rest"
proof (cases "c < 0x10000")
  case True
  then have "\<not> is_lead (word_of_nat c)"
    using assms by (auto simp: is_lead_of_nat scalar_value_def)
  then show ?thesis using True by (simp add: utf16_of_def stringToChars_single)
next
  case False
  let ?c = "c - 0x10000"
  have c: "?c < 0x100000" using assms False by (simp add: scalar_value_def)
  then have "?c div 0x400 < 0x400" by simp
  then have "is_lead (word_of_nat (0xD800 + ?c div 0x400))"
    by (subst is_lead_of_nat) auto
  moreover have "is_trail (word_of_nat (0xDC00 + ?c mod 0x400))"
    by (subst is_trail_of_nat) auto
  ultimately show ?thesis using False by (simp add: utf16_of_def)
qed

lemma stringToChars_utf16_string:
  "list_all scalar_value cs \<Longrightarrow> stringToChars (utf16_string cs) = map utf16_of cs"
proof (induction cs)
  case Nil
  then show ?case by (simp add: utf16_string_def)
next
  case (Cons c cs)
  then have "stringToChars (utf16_of c @ utf16_string cs) = utf16_of c # map utf16_of cs"
    by (simp add: stringToChars_utf16_of)
  then show ?case by (simp add: utf16_string_def)
qed

lemma utf16_of_inj:
  assumes "scalar_value c" "scalar_value d" "utf16_of c = utf16_of d"
  shows "c = d"
proof (cases "c < 0x10000")
  case True
  then have d: "d < 0x10000" using assms(3) by (auto simp: utf16_of_def split: if_splits)
  then show ?thesis using True assms(3) by (simp add: utf16_of_def of_nat_16_inj)
next
  case False
  then have d: "\<not> d < 0x10000" using assms(3) by (auto simp: utf16_of_def split: if_splits)
  let ?c = "c - 0x10000" and ?d = "d - 0x10000"
  have c: "?c < 0x100000" "?d < 0x100000"
    using assms(1,2) False d by (auto simp: scalar_value_def)
  have "(word_of_nat (0xD800 + ?c div 0x400) :: 16 word) = word_of_nat (0xD800 + ?d div 0x400)"
    and "(word_of_nat (0xDC00 + ?c mod 0x400) :: 16 word) = word_of_nat (0xDC00 + ?d mod 0x400)"
    using assms(3) False d by (simp_all add: utf16_of_def)
  then have "0xD800 + ?c div 0x400 = 0xD800 + ?d div 0x400"
    and "0xDC00 + ?c mod 0x400 = 0xDC00 + ?d mod 0x400"
    using c by (subst (asm) of_nat_16_inj; simp)+
  then have "?c div 0x400 = ?d div 0x400" "?c mod 0x400 = ?d mod 0x400" by simp_all
  then have "?c = ?d" by (metis div_mult_mod_eq)
  then show ?thesis using False d by simp
qed

lemma utf16_of_inj_on: "list_all scalar_value cs \<Longrightarrow> inj_on utf16_of (set cs)"
  by (auto simp: inj_on_def list_all_iff intro: utf16_of_inj)

lemma border_map:
  assumes "inj_on f (set xs)"
  shows "border (map f xs) b \<longleftrightarrow> border xs b"
proof -
  have "inj_on f (set (take b xs) \<union> set (drop (length xs - b) xs))"
    using assms by (rule inj_on_subset) (auto dest: in_set_takeD in_set_dropD)
  from inj_on_map_eq_map [OF this] show ?thesis
    by (simp add: border_def take_map drop_map)
qed

lemma longest_border_upto_map:
  "inj_on f (set xs) \<Longrightarrow> longest_border_upto (map f xs) c = longest_border_upto xs c"
  by (induction c) (simp_all add: border_map)

lemma lps_brute_map: "inj_on f (set xs) \<Longrightarrow> lps_brute (map f xs) = lps_brute xs"
  by (simp add: lps_brute_def longest_border_upto_map)

lemma table_ok_map:
  assumes "inj_on f (set p)"
  shows "table_ok (map f p) t \<longleftrightarrow> table_ok p t"
proof -
  have "lps_brute (take (Suc k) (map f p)) = lps_brute (take (Suc k) p)" for k
  proof -
    have "inj_on f (set (take (Suc k) p))"
      using assms by (rule inj_on_subset) (auto dest: in_set_takeD)
    from lps_brute_map [OF this] show ?thesis by (simp add: take_map)
  qed
  then show ?thesis by (simp add: table_ok_def)
qed

lemma occurs_at_map:
  assumes "inj_on f (set s \<union> set p)"
  shows "occurs_at (map f s) (map f p) r \<longleftrightarrow> occurs_at s p r"
proof -
  have "inj_on f (set (take (length p) (drop r s)) \<union> set p)"
    using assms by (rule inj_on_subset) (auto dest: in_set_takeD in_set_dropD)
  from inj_on_map_eq_map [OF this] show ?thesis
    by (simp add: occurs_at_def take_map drop_map)
qed

section \<open>Properties of \<open>find\<close>\<close>

text \<open>
  What \<open>find\<close> returns on every input: \<open>-1\<close> for the empty pattern, \<open>-1\<close> when the first
  occurrence of the pattern ends at the last unit of the text, and otherwise the result
  of the brute-force search.
\<close>

lemma find_KMP_value:
  "find_KMP testStr keywordStr =
     Some (Inr (if stringToChars keywordStr = [] \<or>
                   naive_find (stringToChars testStr) (stringToChars keywordStr)
                     + int (length (stringToChars keywordStr))
                   = int (length (stringToChars testStr))
                then - 1
                else naive_find (stringToChars testStr) (stringToChars keywordStr)))"
proof (cases "stringToChars keywordStr = []")
  case True
  then have "keywordStr = []" by (simp add: stringToChars_Nil_iff)
  then show ?thesis by (simp add: find_KMP_def table_empty find_loop_empty)
next
  case False
  from find_KMP_result [OF False, of testStr] obtain i j where
    r: "find_post (stringToChars testStr) (stringToChars keywordStr) i j"
       "find_KMP testStr keywordStr =
          Some (Inr (if i = length (stringToChars testStr) then - 1
                     else int i - int (length (stringToChars keywordStr))))"
    by blast
  show ?thesis
    using find_post_naive [OF r(1) False] r(2) False by simp
qed

text \<open>
  C1 as it is stated fails at the text \<open>abc\<close> and the empty pattern: the empty pattern
  occurs at index \<open>0\<close> and the brute-force search returns \<open>0\<close>, and \<open>find\<close> returns \<open>-1\<close>.
\<close>

theorem empty_pattern_differs_from_naive:
  "find_KMP (js_str ''abc'') [] = Some (Inr (- 1)) \<and>
   naive_find (stringToChars (js_str ''abc'')) (stringToChars []) = 0 \<and>
   occurs_at (stringToChars (js_str ''abc'')) (stringToChars []) 0"
  by (intro conjI; code_simp)

text \<open>
  C1, amended: for every text and every non-empty pattern whose first occurrence in the
  text, if there is one, does not end at the last unit of the text, \<open>find\<close> agrees with the
  brute-force search on the two sequences of characters: it returns the index of the
  first occurrence of the pattern, and \<open>-1\<close> exactly when the pattern does not occur.
\<close>

theorem find_agrees_with_naive_amended:
  assumes "stringToChars keywordStr \<noteq> []"
    and "0 \<le> naive_find (stringToChars testStr) (stringToChars keywordStr) \<Longrightarrow>
         naive_find (stringToChars testStr) (stringToChars keywordStr)
           + int (length (stringToChars keywordStr)) \<noteq> int (length (stringToChars testStr))"
  shows "find_KMP testStr keywordStr =
           Some (Inr (naive_find (stringToChars testStr) (stringToChars keywordStr))) \<and>
         (\<forall>r. find_KMP testStr keywordStr = Some (Inr (int r)) \<longleftrightarrow>
              occurs_at (stringToChars testStr) (stringToChars keywordStr) r \<and>
              (\<forall>r'<r. \<not> occurs_at (stringToChars testStr) (stringToChars keywordStr) r')) \<and>
         (find_KMP testStr keywordStr = Some (Inr (- 1)) \<longleftrightarrow>
              (\<forall>r. \<not> occurs_at (stringToChars testStr) (stringToChars keywordStr) r))"
proof -
  let ?T = "stringToChars testStr" and ?P = "stringToChars keywordStr"
  have v: "find_KMP testStr keywordStr =
      Some (Inr (if naive_find ?T ?P + int (length ?P) = int (length ?T) then - 1
                 else naive_find ?T ?P))"
    using find_KMP_value [of testStr keywordStr] assms(1) by simp
  have "naive_find ?T ?P = - 1" if "naive_find ?T ?P + int (length ?P) = int (length ?T)"
  proof (rule ccontr)
    assume "naive_find ?T ?P \<noteq> - 1"
    then have "0 \<le> naive_find ?T ?P" using naive_find_ge [of ?T ?P] by simp
    from assms(2) [OF this] that show False by simp
  qed
  then have e: "find_KMP testStr keywordStr = Some (Inr (naive_find ?T ?P))"
    using v by auto
  show ?thesis
    unfolding e by (simp add: naive_find_eq_iff naive_find_none_iff)
qed

theorem find_agrees_with_naive_amended_witness:
  "stringToChars (js_str ''abaab'') \<noteq> [] \<and>
   naive_find (stringToChars (js_str ''ababbbabbbabaababaaabaaaaabababaabcdabdbabab''))
     (stringToChars (js_str ''abaab'')) = 10 \<and>
   naive_find (stringToChars (js_str ''ababbbabbbabaababaaabaaaaabababaabcdabdbabab''))
       (stringToChars (js_str ''abaab'')) + int (length (stringToChars (js_str ''abaab'')))
     \<noteq> int (length (stringToChars (js_str ''ababbbabbbabaababaaabaaaaabababaabcdabdbabab''))) \<and>
   find_KMP (js_str ''ababbbabbbabaababaaabaaaaabababaabcdabdbabab'') (js_str ''abaab'') =
     Some (Inr 10)"
proof -
  let ?s = "js_str ''ababbbabbbabaababaaabaaaaabababaabcdabdbabab''" and ?k = "js_str ''abaab''"
  have n: "naive_find (stringToChars ?s) (stringToChars ?k) = 10" by code_simp
  have h1: "stringToChars ?k \<noteq> []" by code_simp
  have h2: "naive_find (stringToChars ?s) (stringToChars ?k) + int (length (stringToChars ?k))
              \<noteq> int (length (stringToChars ?s))" by code_simp
  have "find_KMP ?s ?k = Some (Inr (naive_find (stringToChars ?s) (stringToChars ?k)))"
    using find_agrees_with_naive_amended [OF h1 h2] by blast
  then have "find_KMP ?s ?k = Some (Inr 10)" by (simp only: n)
  with h1 h2 n show ?thesis by blast
qed

text \<open>
  C2 at the text \<open>ab\<close> and the pattern \<open>ab\<close>: the loop is left by the \<open>break\<close> with
  \<open>i = 2\<close> and \<open>j = 2\<close>, the pattern length, and \<open>i - keywordLength\<close> is \<open>0\<close>, the index
  the brute-force search returns; \<open>find\<close> returns \<open>-1\<close>, because \<open>i\<close> is also the length
  of the text.
\<close>

theorem find_match_at_end:
  "makePartialMatchTable (stringToChars (js_str ''ab'')) = Some (Inr [0, 0]) \<and>
   find_loop (stringToChars (js_str ''ab'')) (stringToChars (js_str ''ab'')) [0, 0] 0 0 =
     Some (Inr (2, 2)) \<and>
   length (stringToChars (js_str ''ab'')) = 2 \<and>
   find_KMP (js_str ''ab'') (js_str ''ab'') = Some (Inr (- 1)) \<and>
   naive_find (stringToChars (js_str ''ab'')) (stringToChars (js_str ''ab'')) = 0"
  by (intro conjI; code_simp)

text \<open>
  C7: for every text, \<open>find\<close> with the empty pattern returns \<open>-1\<close> as an ordinary
  value: the table of the empty pattern is empty, the loop is left at the end of the text
  with \<open>j = 0\<close> and never by the \<open>break\<close>, and the run neither faults nor goes on for ever.
\<close>

theorem find_empty_pattern:
  "makePartialMatchTable (stringToChars []) = Some (Inr []) \<and>
   find_loop (stringToChars testStr) (stringToChars []) [] 0 0 =
     Some (Inr (length (stringToChars testStr), 0)) \<and>
   find_KMP testStr [] = Some (Inr (- 1))"
  by (simp add: find_KMP_def table_empty find_loop_empty)

text \<open>
  C9: for every text and every non-empty pattern, a result \<open>r \<ge> 0\<close> of \<open>find\<close> is an
  index at which the pattern occurs in the text, and the pattern occurs at no smaller
  index.
\<close>

theorem find_result_sound:
  assumes "stringToChars keywordStr \<noteq> []" and "find_KMP testStr keywordStr = Some (Inr r)" and "0 \<le> r"
  shows "occurs_at (stringToChars testStr) (stringToChars keywordStr) (nat r) \<and>
         (\<forall>r'<nat r. \<not> occurs_at (stringToChars testStr) (stringToChars keywordStr) r')"
proof -
  let ?T = "stringToChars testStr" and ?P = "stringToChars keywordStr"
  from find_KMP_result [OF assms(1), of testStr] obtain i j where
    p: "find_post ?T ?P i j"
    and k: "find_KMP testStr keywordStr =
              Some (Inr (if i = length ?T then - 1 else int i - int (length ?P)))"
    by blast
  have i: "i \<noteq> length ?T" and r: "r = int i - int (length ?P)"
    using k assms(2,3) by (auto split: if_splits)
  then have "j = length ?P" using p by (auto simp: find_post_def split: if_splits)
  then have a: "length ?P \<le> i" "occurs_at ?T ?P (i - length ?P)"
    "\<forall>r'<i - length ?P. \<not> occurs_at ?T ?P r'"
    using p by (auto simp: find_post_def)
  have "nat r = i - length ?P" using r a(1) by simp
  then show ?thesis using a by simp
qed

theorem find_result_sound_witness:
  "stringToChars (js_str ''aabaaa'') \<noteq> [] \<and>
   find_KMP (js_str ''ababbbabbbabaababaaabaaaaabababaabcdabdbabab'') (js_str ''aabaaa'') =
     Some (Inr 18) \<and>
   occurs_at (stringToChars (js_str ''ababbbabbbabaababaaabaaaaabababaabcdabdbabab''))
     (stringToChars (js_str ''aabaaa'')) (nat 18) \<and>
   \<not> (\<exists>r'<nat 18.
      occurs_at (stringToChars (js_str ''ababbbabbbabaababaaabaaaaabababaabcdabdbabab''))
        (stringToChars (js_str ''aabaaa'')) r')"
proof -
  let ?s = "js_str ''ababbbabbbabaababaaabaaaaabababaabcdabdbabab''" and ?k = "js_str ''aabaaa''"
  have h1: "stringToChars ?k \<noteq> []" by code_simp
  have h2: "find_KMP ?s ?k = Some (Inr 18)" by code_simp
  have h3: "(0::int) \<le> 18" by simp
  from find_result_sound [OF h1 h2 h3] h1 h2 show ?thesis by blast
qed

text \<open>
  C10: for a non-empty pattern, the table builder and \<open>find\<close> with every indexed read
  checked return a value, never \<open>Out_of_bounds\<close>, and it is the value the unchecked
  functions return: every read of the text, of the pattern and of the table is inside
  the array.
\<close>

theorem accesses_in_bounds:
  "(keywordChars \<noteq> [] \<longrightarrow>
      (\<exists>t. makePartialMatchTable_checked keywordChars = Some (Inr t) \<and>
           makePartialMatchTable keywordChars = Some (Inr t))) \<and>
   (stringToChars keywordStr \<noteq> [] \<longrightarrow>
      (\<exists>r. find_KMP_checked testStr keywordStr = Some (Inr r) \<and>
           find_KMP testStr keywordStr = Some (Inr r)))"
proof (intro conjI impI)
  show "\<exists>t. makePartialMatchTable_checked keywordChars = Some (Inr t) \<and>
           makePartialMatchTable keywordChars = Some (Inr t)"
    using makePartialMatchTable_total [of keywordChars] by blast
  assume "stringToChars keywordStr \<noteq> []"
  from find_KMP_result [OF this, of testStr]
  show "\<exists>r. find_KMP_checked testStr keywordStr = Some (Inr r) \<and>
           find_KMP testStr keywordStr = Some (Inr r)"
    by auto
qed

theorem accesses_in_bounds_witness:
  "''abcdabd'' \<noteq> [] \<and> stringToChars (js_str ''abcdabd'') \<noteq> [] \<and>
   (\<exists>t. makePartialMatchTable_checked ''abcdabd'' = Some (Inr t) \<and>
        makePartialMatchTable ''abcdabd'' = Some (Inr t)) \<and>
   (\<exists>r. find_KMP_checked (js_str ''xxabcdabdxx'') (js_str ''abcdabd'') = Some (Inr r) \<and>
        find_KMP (js_str ''xxabcdabdxx'') (js_str ''abcdabd'') = Some (Inr r))"
proof -
  have h1: "''abcdabd'' \<noteq> []" by simp
  have h2: "stringToChars (js_str ''abcdabd'') \<noteq> []" by code_simp
  from accesses_in_bounds [of "''abcdabd''" "js_str ''abcdabd''" "js_str ''xxabcdabdxx''"] h1 h2
  show ?thesis by blast
qed

text \<open>
  The hypothesis is needed: with the empty pattern the first comparison of the scanner
  reads \<open>keywordChars[0]\<close> outside the array.
\<close>

lemma checked_empty_pattern_faults:
  "find_KMP_checked (js_str ''a'') [] = Some (Inl Out_of_bounds)"
  by code_simp

section \<open>Properties of \<open>stringToChars\<close>\<close>

text \<open>
  C8: \<open>stringToChars\<close> cuts a string into pieces that make up the string again, each
  one code unit or a surrogate pair. On the UTF-16 string of a sequence of Unicode scalar
  values it returns one character per code point. \<open>find\<close> converts both the text and
  the pattern this way, so the table has one entry per code point of the pattern, holding
  the longest border counted in code points, and a result \<open>r \<ge> 0\<close> of \<open>find\<close> is the index
  of the first occurrence counted in code points.
\<close>

theorem stringToChars_code_points:
  assumes "list_all scalar_value T" and "list_all scalar_value P"
  shows "concat (stringToChars s) = s \<and>
         (\<forall>c\<in>set (stringToChars s).
            (\<exists>u. c = [u]) \<or> (\<exists>u v. c = [u, v] \<and> is_lead u \<and> is_trail v)) \<and>
         stringToChars (utf16_string P) = map utf16_of P \<and>
         length (stringToChars (utf16_string P)) = length P \<and>
         (\<exists>t. makePartialMatchTable (stringToChars (utf16_string P)) = Some (Inr t) \<and>
              length t = length P \<and>
              (\<forall>k<length P. t ! k = lps_brute (take (Suc k) P))) \<and>
         (\<forall>r. find_KMP (utf16_string T) (utf16_string P) = Some (Inr r) \<and> 0 \<le> r \<longrightarrow>
              occurs_at T P (nat r) \<and> (\<forall>r'<nat r. \<not> occurs_at T P r'))"
proof -
  have cT: "stringToChars (utf16_string T) = map utf16_of T"
    and cP: "stringToChars (utf16_string P) = map utf16_of P"
    using assms by (simp_all add: stringToChars_utf16_string)
  have "list_all scalar_value (T @ P)" using assms by simp
  then have inj: "inj_on utf16_of (set T \<union> set P)"
    using utf16_of_inj_on [of "T @ P"] by simp
  have injP: "inj_on utf16_of (set P)"
    using assms(2) by (rule utf16_of_inj_on)
  from makePartialMatchTable_total [of "map utf16_of P"] obtain t where
    t: "makePartialMatchTable (map utf16_of P) = Some (Inr t)" "table_ok (map utf16_of P) t"
    by blast
  have "table_ok P t" using t(2) table_ok_map [OF injP] by simp
  then have tab: "\<exists>t. makePartialMatchTable (stringToChars (utf16_string P)) = Some (Inr t) \<and>
      length t = length P \<and> (\<forall>k<length P. t ! k = lps_brute (take (Suc k) P))"
    using t(1) cP by (auto simp: table_ok_def)
  have pos: "occurs_at T P (nat r) \<and> (\<forall>r'<nat r. \<not> occurs_at T P r')"
    if "find_KMP (utf16_string T) (utf16_string P) = Some (Inr r)" "0 \<le> r" for r
  proof -
    have "stringToChars (utf16_string P) \<noteq> []"
    proof
      assume "stringToChars (utf16_string P) = []"
      then have "utf16_string P = []" by (simp add: stringToChars_Nil_iff)
      then have "find_KMP (utf16_string T) (utf16_string P) = Some (Inr (- 1))"
        by (simp add: find_KMP_def table_empty find_loop_empty)
      then show False using that by simp
    qed
    from find_KMP_result [OF this, of "utf16_string T"] obtain i j where
      p: "find_post (map utf16_of T) (map utf16_of P) i j"
      and k: "find_KMP (utf16_string T) (utf16_string P) =
                Some (Inr (if i = length T then - 1 else int i - int (length P)))"
      using cT cP by auto
    have i: "i \<noteq> length T" and r: "r = int i - int (length P)"
      using k that by (auto split: if_splits)
    then have "j = length P" using p by (auto simp: find_post_def split: if_splits)
    then have a: "length P \<le> i" "occurs_at (map utf16_of T) (map utf16_of P) (i - length P)"
      "\<forall>r'<i - length P. \<not> occurs_at (map utf16_of T) (map utf16_of P) r'"
      using p by (auto simp: find_post_def)
    have "nat r = i - length P" using r a(1) by simp
    then show ?thesis using a(2,3) by (simp add: occurs_at_map [OF inj])
  qed
  have "\<forall>c\<in>set (stringToChars s).
      (\<exists>u. c = [u]) \<or> (\<exists>u v. c = [u, v] \<and> is_lead u \<and> is_trail v)"
    using stringToChars_elements by blast
  then show ?thesis using cP tab pos by (simp add: concat_stringToChars)
qed

theorem stringToChars_code_points_witness:
  "list_all scalar_value [0x1F600, 0x4E0A, 0x1F600, 0x61, 0x1F600, 0x62] \<and>
   list_all scalar_value [0x1F600, 0x61, 0x1F600] \<and>
   stringToChars (utf16_string [0x1F600, 0x61, 0x1F600]) =
     [[0xD83D, 0xDE00], [0x61], [0xD83D, 0xDE00]] \<and>
   length (stringToChars (utf16_string [0x1F600, 0x61, 0x1F600])) =
     length [0x1F600, 0x61, 0x1F600 :: nat] \<and>
   find_KMP (utf16_string [0x1F600, 0x4E0A, 0x1F600, 0x61, 0x1F600, 0x62])
     (utf16_string [0x1F600, 0x61, 0x1F600]) = Some (Inr 2) \<and>
   occurs_at [0x1F600, 0x4E0A, 0x1F600, 0x61, 0x1F600, 0x62]
     [0x1F600, 0x61, 0x1F600 :: nat] (nat 2)"
proof -
  let ?T = "[0x1F600, 0x4E0A, 0x1F600, 0x61, 0x1F600, 0x62] :: nat list"
  let ?P = "[0x1F600, 0x61, 0x1F600] :: nat list"
  have h1: "list_all scalar_value ?T" by (simp add: scalar_value_def)
  have h2: "list_all scalar_value ?P" by (simp add: scalar_value_def)
  have uT: "utf16_string ?T = [0xD83D, 0xDE00, 0x4E0A, 0xD83D, 0xDE00, 0x61, 0xD83D, 0xDE00, 0x62]"
    by (simp add: utf16_string_def utf16_of_def)
  have uP: "utf16_string ?P = [0xD83D, 0xDE00, 0x61, 0xD83D, 0xDE00]"
    by (simp add: utf16_string_def utf16_of_def)
  have mP: "map utf16_of ?P = [[0xD83D, 0xDE00], [0x61], [0xD83D, 0xDE00]]"
    by (simp add: utf16_of_def)
  have "find_KMP [0xD83D, 0xDE00, 0x4E0A, 0xD83D, 0xDE00, 0x61, 0xD83D, 0xDE00, 0x62]
          [0xD83D, 0xDE00, 0x61, 0xD83D, 0xDE00] = Some (Inr 2)"
    by code_simp
  then have f: "find_KMP (utf16_string ?T) (utf16_string ?P) = Some (Inr 2)"
    by (simp only: uT uP)
  have z: "(0::int) \<le> 2" by simp
  note main = stringToChars_code_points [OF h1 h2]
  from main have c: "stringToChars (utf16_string ?P) = map utf16_of ?P"
    and l: "length (stringToChars (utf16_string ?P)) = length ?P" by blast+
  from main f z have o: "occurs_at ?T ?P (nat 2)" by blast
  from c have c': "stringToChars (utf16_string ?P) = [[0xD83D, 0xDE00], [0x61], [0xD83D, 0xDE00]]"
    by (simp only: mP)
  from h1 h2 c' l f o show ?thesis by blast
qed

end
